theory Spec2Isabelle
  imports Complex_Main "HOL-Library.Char_ord" "HOL-Library.List_Lexorder"
    "HOL-Library.Product_Lexorder" "HOL-Library.Multiset"
begin

section \<open>The KLIFS structure table\<close>

text \<open>
  The notebook \<open>ATP and kinase conformations\<close> works on one pandas data frame,
  \<open>kinase_df\<close>, as returned by \<open>klifs_utils.remote.structures.structures_from_kinase_ids\<close>.
  A data frame is modelled as the list of its rows, in frame order. A row carries the
  columns the notebook reads. The columns \<open>ligand\<close> and \<open>allosteric_ligand\<close> have dtype
  object in KLIFS: a three-letter ligand code, or the integer 0 when there is none.
  \<open>quality_score\<close> and \<open>resolution\<close> are floats; only their order is used, so they are
  modelled by the rationals they denote (no NaN). Strings are compared the way Python
  compares them: lexicographically, character by character.
\<close>

datatype cell = Num int | Str string

record row =
  structure_ID :: int
  pdb :: string
  alt :: string
  chain :: string
  ligand :: cell
  allosteric_ligand :: cell
  DFG :: string
  aC_helix :: string
  quality_score :: rat
  resolution :: rat

type_synonym frame = "row list"

section \<open>Retrieving the relevant structures\<close>

text \<open>\<^verbatim>\<open>kinase_df = kinase_df[kinase_df["ligand"] == "ATP"]\<close>\<close>

definition filter_atp :: "frame \<Rightarrow> frame" where
  "filter_atp df = filter (\<lambda>r. ligand r = Str ''ATP'') df"

text \<open>
  \<^verbatim>\<open>kinase_df = kinase_df.groupby('pdb').filter(lambda x: len(set(x['ligand'])) == 1)\<close>

  \<open>pdb_group df p\<close> is the sub-frame \<open>x\<close> that \<open>groupby('pdb')\<close> hands to the lambda for
  the key \<open>p\<close>; \<open>groupby(...).filter\<close> keeps the rows of the groups for which the lambda
  is true, in frame order.
\<close>

definition pdb_group :: "frame \<Rightarrow> string \<Rightarrow> frame" where
  "pdb_group df p = filter (\<lambda>r. pdb r = p) df"

definition single_ligand :: "frame \<Rightarrow> bool" where
  "single_ligand x = (card (set (map ligand x)) = 1)"

definition filter_single_ligand :: "frame \<Rightarrow> frame" where
  "filter_single_ligand df = filter (\<lambda>r. single_ligand (pdb_group df (pdb r))) df"

text \<open>\<^verbatim>\<open>kinase_df = kinase_df[kinase_df["allosteric_ligand"] == 0]\<close>\<close>

definition filter_no_allosteric :: "frame \<Rightarrow> frame" where
  "filter_no_allosteric df = filter (\<lambda>r. allosteric_ligand r = Num 0) df"

text \<open>The three filter cells, in notebook order.\<close>

definition retrieve_filters :: "frame \<Rightarrow> frame" where
  "retrieve_filters df = filter_no_allosteric (filter_single_ligand (filter_atp df))"

text \<open>
  \<^verbatim>\<open>kinase_df = kinase_df.sort_values(by=['quality_score', 'resolution', 'alt','chain'],
                                    ascending=[False, True, True, True])\<close>

  A sort on several columns is a stable lexicographic sort; the descending first column
  is the ascending order of its negation.
\<close>

definition sort_columns :: "row \<Rightarrow> rat \<times> rat \<times> string \<times> string" where
  "sort_columns r = (- quality_score r, resolution r, alt r, chain r)"

definition sort_values :: "frame \<Rightarrow> frame" where
  "sort_values df = sort_key sort_columns df"

text \<open>
  \<^verbatim>\<open>kinase_df = kinase_df.groupby('pdb').head(1)\<close>

  The first row of every group, in frame order: a row is kept when no earlier row
  has its \<open>pdb\<close> value.
\<close>

fun group_head :: "string list \<Rightarrow> frame \<Rightarrow> frame" where
  "group_head seen [] = []"
| "group_head seen (r # rs) =
     (if pdb r \<in> set seen then group_head seen rs
      else r # group_head (pdb r # seen) rs)"

definition select_best :: "frame \<Rightarrow> frame" where
  "select_best df = group_head [] (sort_values df)"

section \<open>Conformations\<close>

text \<open>\<^verbatim>\<open>kinase_df = kinase_df[kinase_df.DFG != 'na']\<close>\<close>

definition filter_dfg :: "frame \<Rightarrow> frame" where
  "filter_dfg df = filter (\<lambda>r. DFG r \<noteq> ''na'') df"

text \<open>\<^verbatim>\<open>kinase_df[kinase_df.aC_helix == "in"]\<close>, the frame both file loops iterate over.\<close>

definition aC_in :: "frame \<Rightarrow> frame" where
  "aC_in df = filter (\<lambda>r. aC_helix r = ''in'') df"

text \<open>The value of \<open>kinase_df\<close> when the file loops start, from the retrieved frame.\<close>

definition pipeline :: "frame \<Rightarrow> frame" where
  "pipeline df = filter_dfg (select_best (retrieve_filters df))"

section \<open>Writing the structure files\<close>

text \<open>
  The file system is a map from paths to file contents. Every \<open>open(path, 'w')\<close>
  followed by \<open>wf.write(text)\<close> replaces the contents at \<open>path\<close>; the store also keeps
  the sequence of paths opened for writing, so that overwriting can be stated.

  The two library calls of the loops are parameters of the model and are taken to
  return: \<open>complex_pdb_text\<close> stands for
  \<open>klifs_utils.remote.coordinates.complex._complex_pdb_text\<close>, from a structure ID to the
  PDB text, and \<open>count_mg\<close> for \<open>len(mda.Universe(path).select_atoms("resname MG"))\<close>,
  from the text of the file at \<open>path\<close> to the number of selected atoms. Reading a path
  that holds no file is an error of the model.
\<close>

type_synonym path = string

record store =
  contents :: "path \<rightharpoonup> string"
  writes :: "path list"

datatype error = FileNotFoundError path | KeyError string

definition write_file :: "path \<Rightarrow> string \<Rightarrow> store \<Rightarrow> store" where
  "write_file p text st = st\<lparr>contents := (contents st)(p \<mapsto> text), writes := writes st @ [p]\<rparr>"

text \<open>
  \<^verbatim>\<open>directory / f"{row['pdb']}.pdb"\<close>. The \<open>pdb\<close> column holds PDB identifiers, which are
  file names (\<open>plain_name\<close>: no path separator); for a file name, pathlib's \<open>/\<close> appends
  the separator and the name. Directories are written as in the notebook, below the home
  directory \<open>~\<close> that \<open>expanduser\<close> substitutes.
\<close>

definition plain_name :: "string \<Rightarrow> bool" where
  "plain_name p = (CHR ''/'' \<notin> set p)"

definition plain_names :: "frame \<Rightarrow> bool" where
  "plain_names df = list_all (\<lambda>r. plain_name (pdb r)) df"

definition pdb_file :: "path \<Rightarrow> string \<Rightarrow> path" where
  "pdb_file d p = d @ ''/'' @ p @ ''.pdb''"

definition directory :: path where
  "directory = ''~/data/kinases/atp''"

definition directory_no_mg :: path where
  "directory_no_mg = ''~/data/kinases/atp/no_mg''"

definition directory_one_mg :: path where
  "directory_one_mg = ''~/data/kinases/atp/one_mg''"

definition directory_two_mg :: path where
  "directory_two_mg = ''~/data/kinases/atp/two_mg''"

definition directory_more_mg :: path where
  "directory_more_mg = ''~/data/kinases/atp/more_mg''"

text \<open>
  \<^verbatim>\<open>for index, row in kinase_df[kinase_df.aC_helix == "in"].iterrows():
      pdb_text = klifs_utils.remote.coordinates.complex._complex_pdb_text(row['structure_ID'])
      path = directory / f"{row['pdb']}.pdb"
      with open(path, 'w') as wf:
          wf.write(pdb_text)\<close>
\<close>

fun write_complexes :: "(int \<Rightarrow> string) \<Rightarrow> frame \<Rightarrow> store \<Rightarrow> store" where
  "write_complexes complex_pdb_text [] st = st"
| "write_complexes complex_pdb_text (r # rs) st =
     write_complexes complex_pdb_text rs
       (write_file (pdb_file directory (pdb r)) (complex_pdb_text (structure_ID r)) st)"

definition retrieve_complexes :: "(int \<Rightarrow> string) \<Rightarrow> frame \<Rightarrow> store \<Rightarrow> store" where
  "retrieve_complexes complex_pdb_text kinase_df st =
     write_complexes complex_pdb_text (aC_in kinase_df) st"

text \<open>
  The Mg loop: the four lists, and the store. One iteration reads the file written by
  the first loop, counts, appends the \<open>pdb\<close> value to one list and writes the text to
  the directory of that list.
\<close>

record mg_state =
  files :: store
  no_mg :: "string list"
  one_mg :: "string list"
  two_mg :: "string list"
  more_mg :: "string list"

definition mg_step ::
  "(string \<Rightarrow> nat) \<Rightarrow> (int \<Rightarrow> string) \<Rightarrow> row \<Rightarrow> mg_state \<Rightarrow> error + mg_state" where
  "mg_step count_mg complex_pdb_text r s =
     (case contents (files s) (pdb_file directory (pdb r)) of
        None \<Rightarrow> Inl (FileNotFoundError (pdb_file directory (pdb r)))
      | Some u \<Rightarrow>
          let num_mg = count_mg u;
              pdb_text = complex_pdb_text (structure_ID r)
          in if num_mg = 0 then
               Inr (s\<lparr>no_mg := no_mg s @ [pdb r],
                      files := write_file (pdb_file directory_no_mg (pdb r)) pdb_text (files s)\<rparr>)
             else if num_mg = 1 then
               Inr (s\<lparr>one_mg := one_mg s @ [pdb r],
                      files := write_file (pdb_file directory_one_mg (pdb r)) pdb_text (files s)\<rparr>)
             else if num_mg = 2 then
               Inr (s\<lparr>two_mg := two_mg s @ [pdb r],
                      files := write_file (pdb_file directory_two_mg (pdb r)) pdb_text (files s)\<rparr>)
             else
               Inr (s\<lparr>more_mg := more_mg s @ [pdb r],
                      files := write_file (pdb_file directory_more_mg (pdb r)) pdb_text (files s)\<rparr>))"

fun mg_loop ::
  "(string \<Rightarrow> nat) \<Rightarrow> (int \<Rightarrow> string) \<Rightarrow> frame \<Rightarrow> mg_state \<Rightarrow> error + mg_state" where
  "mg_loop count_mg complex_pdb_text [] s = Inr s"
| "mg_loop count_mg complex_pdb_text (r # rs) s =
     (case mg_step count_mg complex_pdb_text r s of
        Inl e \<Rightarrow> Inl e
      | Inr s' \<Rightarrow> mg_loop count_mg complex_pdb_text rs s')"

definition split_by_mg ::
  "(string \<Rightarrow> nat) \<Rightarrow> (int \<Rightarrow> string) \<Rightarrow> frame \<Rightarrow> store \<Rightarrow> error + mg_state" where
  "split_by_mg count_mg complex_pdb_text kinase_df st =
     mg_loop count_mg complex_pdb_text (aC_in kinase_df)
       \<lparr>files = st, no_mg = [], one_mg = [], two_mg = [], more_mg = []\<rparr>"

text \<open>
  The notebook from the retrieved frame to the end of the Mg loop, on a file system
  \<open>st\<close>. The data base is queried once per structure in each loop; \<open>text1\<close> and
  \<open>text2\<close> are its answers in the first and in the second loop.
\<close>

definition notebook ::
  "(string \<Rightarrow> nat) \<Rightarrow> (int \<Rightarrow> string) \<Rightarrow> (int \<Rightarrow> string) \<Rightarrow> frame \<Rightarrow> store
     \<Rightarrow> error + mg_state" where
  "notebook count_mg text1 text2 df st =
     (let kinase_df = pipeline df
      in split_by_mg count_mg text2 kinase_df (retrieve_complexes text1 kinase_df st))"

text \<open>The list and the directory that the loop picks for a count, for stating results.\<close>

definition mg_list :: "nat \<Rightarrow> mg_state \<Rightarrow> string list" where
  "mg_list n s = (if n = 0 then no_mg s else if n = 1 then one_mg s
                  else if n = 2 then two_mg s else more_mg s)"

definition mg_directory :: "nat \<Rightarrow> path" where
  "mg_directory n = (if n = 0 then directory_no_mg else if n = 1 then directory_one_mg
                     else if n = 2 then directory_two_mg else directory_more_mg)"

text \<open>The store before the first loop: the files \<open>fs\<close> present, nothing written yet.\<close>

definition initial_store :: "(path \<rightharpoonup> string) \<Rightarrow> store" where
  "initial_store fs = \<lparr>contents = fs, writes = []\<rparr>"

text \<open>The path and the text of the file that each loop writes for a row.\<close>

definition complex_path :: "row \<Rightarrow> path" where
  "complex_path r = pdb_file directory (pdb r)"

definition mg_path :: "(string \<Rightarrow> nat) \<Rightarrow> (int \<Rightarrow> string) \<Rightarrow> row \<Rightarrow> path" where
  "mg_path count_mg text1 r = pdb_file (mg_directory (count_mg (text1 (structure_ID r)))) (pdb r)"

section \<open>The docking notebook\<close>

text \<open>
  The notebook \<open>ABL1 complex modeling with water\<close>. The dictionary \<open>tkis\<close> is an
  association list in insertion order, which is the order in which \<open>tkis.keys()\<close>
  iterates; a missing key raises \<open>KeyError\<close>.
\<close>

definition tkis :: "(string \<times> (string \<times> string) list) list" where
  "tkis =
    [(''axitinib'', [(''smiles'', ''CNC(=O)c1ccccc1Sc1ccc2c(/C=C/c3ccccn3)n[nH]c2c1'')]),
     (''bosutinib'', [(''smiles'', ''COc1cc(Nc2c(C#N)cnc3cc(OCCCN4CCN(C)CC4)c(OC)cc23)c(Cl)cc1Cl'')]),
     (''dasatinib'', [(''smiles'', ''Cc1nc(Nc2ncc(C(=O)Nc3c(C)cccc3Cl)s2)cc(N2CCN(CCO)CC2)n1'')]),
     (''imatinib'', [(''smiles'', ''Cc1ccc(NC(=O)c2ccc(CN3CCN(C)CC3)cc2)cc1Nc1nccc(-c2cccnc2)n1'')]),
     (''nilotinib'', [(''smiles'', ''Cc1cn(-c2cc(NC(=O)c3ccc(C)c(Nc4nccc(-c5cccnc5)n4)c3)cc(C(F)(F)F)c2)cn1'')]),
     (''ponatinib'', [(''smiles'', ''Cc1ccc(C(=O)Nc2ccc(CN3CCN(C)CC3)c(C(F)(F)F)c2)cc1C#Cc1cnc2cccnn12'')]),
     (''erlotinib'', [(''smiles'', ''C#Cc1cccc(Nc2ncnc3cc(OCCOC)c(OCCOC)cc23)c1'')]),
     (''gefitinib'', [(''smiles'', ''COc1cc2ncnc(Nc3ccc(F)c(Cl)c3)c2cc1OCCCN1CCOCC1'')])]"

definition getitem :: "(string \<times> 'v) list \<Rightarrow> string \<Rightarrow> error + 'v" where
  "getitem d k = (case map_of d k of None \<Rightarrow> Inl (KeyError k) | Some v \<Rightarrow> Inr v)"

text \<open>
  \<open>BaseProtein(name='ABL1')\<close> has no KLIFS kinase ID until the attribute is assigned.
\<close>

datatype component =
    BaseProtein (name: string) (klifs_kinase_id: "int option")
  | SmilesLigand (smiles: string) (name: string)

datatype ProteinLigandComplex = ProteinLigandComplex (components: "component list")

text \<open>
  The variables that the loop body assigns, and the sequence of arguments with which
  \<open>docking_featurizer.featurize\<close> has been called. The featurizer is a parameter of the
  model, taken to return a value of some type \<open>'s\<close>.
\<close>

record 's variables =
  tki :: string
  smiles_ligand :: component
  base_protein :: component
  kinase_ligand_complex :: ProteinLigandComplex
  system :: 's

record 's docking_state =
  bound :: "'s variables option"
  featurize_calls :: "ProteinLigandComplex list"

text \<open>
  \<^verbatim>\<open>smiles_ligand = SmilesLigand(smiles=tkis[tki]['smiles'], name=tki)
  base_protein = BaseProtein(name='ABL1')
  base_protein.klifs_kinase_id = 392
  kinase_ligand_complex = ProteinLigandComplex(components=[base_protein, smiles_ligand])
  system = docking_featurizer.featurize(kinase_ligand_complex)\<close>
\<close>

definition docking_step ::
  "(ProteinLigandComplex \<Rightarrow> 's) \<Rightarrow> string \<Rightarrow> 's docking_state \<Rightarrow> error + 's docking_state" where
  "docking_step featurize k s =
     (case getitem tkis k of
        Inl e \<Rightarrow> Inl e
      | Inr entry \<Rightarrow>
          (case getitem entry ''smiles'' of
             Inl e \<Rightarrow> Inl e
           | Inr smi \<Rightarrow>
               let ligand' = SmilesLigand smi k;
                   protein = BaseProtein ''ABL1'' None;
                   protein' = BaseProtein (name protein) (Some 392);
                   cplx = ProteinLigandComplex [protein', ligand']
               in Inr \<lparr>bound = Some \<lparr>tki = k, smiles_ligand = ligand', base_protein = protein',
                                      kinase_ligand_complex = cplx, system = featurize cplx\<rparr>,
                       featurize_calls = featurize_calls s @ [cplx]\<rparr>))"

fun docking_loop ::
  "(ProteinLigandComplex \<Rightarrow> 's) \<Rightarrow> string list \<Rightarrow> 's docking_state \<Rightarrow> error + 's docking_state" where
  "docking_loop featurize [] s = Inr s"
| "docking_loop featurize (k # ks) s =
     (case docking_step featurize k s of
        Inl e \<Rightarrow> Inl e
      | Inr s' \<Rightarrow> docking_loop featurize ks s')"

definition dock_tkis :: "(ProteinLigandComplex \<Rightarrow> 's) \<Rightarrow> error + 's docking_state" where
  "dock_tkis featurize =
     docking_loop featurize (map fst tkis) \<lparr>bound = None, featurize_calls = []\<rparr>"

text \<open>The values of the inner dictionaries (the SMILES strings), in order, and the complex built for an entry.\<close>

definition tki_smiles :: "string list" where
  "tki_smiles = concat (map (\<lambda>(k, entry). map snd entry) tkis)"

definition abl1_complex :: "string \<Rightarrow> string \<Rightarrow> ProteinLigandComplex" where
  "abl1_complex k smi =
     ProteinLigandComplex [BaseProtein ''ABL1'' (Some 392), SmilesLigand smi k]"

text \<open>The two components of a complex, in the order the loop passes them.\<close>

definition protein_of :: "ProteinLigandComplex \<Rightarrow> component" where
  "protein_of c = components c ! 0"

definition ligand_of :: "ProteinLigandComplex \<Rightarrow> component" where
  "ligand_of c = components c ! 1"

text \<open>
  Two featurizers whose result is a pass/fail flag: one passes every complex, the
  other fails the complex of axitinib only.
\<close>

definition passes_all :: "ProteinLigandComplex \<Rightarrow> bool" where
  "passes_all c = True"

definition fails_axitinib :: "ProteinLigandComplex \<Rightarrow> bool" where
  "fails_axitinib c = (name (ligand_of c) \<noteq> ''axitinib'')"

definition axitinib_complex :: ProteinLigandComplex where
  "axitinib_complex =
     abl1_complex ''axitinib'' ''CNC(=O)c1ccccc1Sc1ccc2c(/C=C/c3ccccn3)n[nH]c2c1''"

section \<open>The order of preference, as the selection is described\<close>

text \<open>
  \<open>better r' r\<close>: the row \<open>r'\<close> is to be preferred to \<open>r\<close>, in the words of the
  description of the selection: a higher quality score, or an equal score and a lower
  resolution, or both equal and a smaller \<open>alt\<close>, or all three equal and a smaller
  \<open>chain\<close>. It is compared below with the order that \<open>sort_values\<close> sorts by.
\<close>

definition better :: "row \<Rightarrow> row \<Rightarrow> bool" where
  "better r' r =
     (quality_score r' > quality_score r
      \<or> (quality_score r' = quality_score r \<and> resolution r' < resolution r)
      \<or> (quality_score r' = quality_score r \<and> resolution r' = resolution r \<and> alt r' < alt r)
      \<or> (quality_score r' = quality_score r \<and> resolution r' = resolution r \<and> alt r' = alt r
          \<and> chain r' < chain r))"

text \<open>Two rows agree on the four sort columns.\<close>

definition same_sort_columns :: "row \<Rightarrow> row \<Rightarrow> bool" where
  "same_sort_columns r r' =
     (quality_score r = quality_score r' \<and> resolution r = resolution r'
      \<and> alt r = alt r' \<and> chain r = chain r')"

section \<open>Example frames\<close>

text \<open>
  A small frame in the shape of the KLIFS table: two entries of 4wtv that differ in the
  alternate location, an entry each with a DFG value \<open>na\<close> and \<open>out-like\<close>, one with the
  \<open>\<alpha>C\<close> helix out, one with an allosteric ligand, and an entry with two chains that
  hold different ligands.
\<close>

definition row_4wtv_B :: row where
  "row_4wtv_B = \<lparr>structure_ID = 9098, pdb = ''4wtv'', alt = ''B'', chain = ''A'',
     ligand = Str ''ATP'', allosteric_ligand = Num 0, DFG = ''in'', aC_helix = ''in'',
     quality_score = 8, resolution = 2\<rparr>"

definition row_4wtv_A :: row where
  "row_4wtv_A = \<lparr>structure_ID = 9095, pdb = ''4wtv'', alt = ''A'', chain = ''A'',
     ligand = Str ''ATP'', allosteric_ligand = Num 0, DFG = ''in'', aC_helix = ''in'',
     quality_score = 8, resolution = 2\<rparr>"

definition row_1atp :: row where
  "row_1atp = \<lparr>structure_ID = 1104, pdb = ''1atp'', alt = [], chain = ''E'',
     ligand = Str ''ATP'', allosteric_ligand = Num 0, DFG = ''in'', aC_helix = ''in'',
     quality_score = 9, resolution = 3\<rparr>"

definition row_3gni :: row where
  "row_3gni = \<lparr>structure_ID = 6436, pdb = ''3gni'', alt = [], chain = ''B'',
     ligand = Str ''ATP'', allosteric_ligand = Num 0, DFG = ''na'', aC_helix = ''in'',
     quality_score = 6, resolution = 3\<rparr>"

definition row_1b38 :: row where
  "row_1b38 = \<lparr>structure_ID = 2210, pdb = ''1b38'', alt = [], chain = ''A'',
     ligand = Str ''ATP'', allosteric_ligand = Num 0, DFG = ''in'', aC_helix = ''out'',
     quality_score = 8, resolution = 2\<rparr>"

definition row_5hid :: row where
  "row_5hid = \<lparr>structure_ID = 3301, pdb = ''5hid'', alt = [], chain = ''A'',
     ligand = Str ''ATP'', allosteric_ligand = Num 0, DFG = ''out-like'', aC_helix = ''in'',
     quality_score = 7, resolution = 2\<rparr>"

definition row_1s9j :: row where
  "row_1s9j = \<lparr>structure_ID = 4412, pdb = ''1s9j'', alt = [], chain = ''A'',
     ligand = Str ''ATP'', allosteric_ligand = Str ''BBM'', DFG = ''in'', aC_helix = ''out'',
     quality_score = 8, resolution = 2\<rparr>"

definition row_2src_A :: row where
  "row_2src_A = \<lparr>structure_ID = 5001, pdb = ''2src'', alt = [], chain = ''A'',
     ligand = Str ''ATP'', allosteric_ligand = Num 0, DFG = ''in'', aC_helix = ''in'',
     quality_score = 8, resolution = 2\<rparr>"

definition row_2src_B :: row where
  "row_2src_B = \<lparr>structure_ID = 5002, pdb = ''2src'', alt = [], chain = ''B'',
     ligand = Str ''ANP'', allosteric_ligand = Num 0, DFG = ''in'', aC_helix = ''in'',
     quality_score = 8, resolution = 2\<rparr>"

definition klifs_frame :: frame where
  "klifs_frame = [row_4wtv_B, row_4wtv_A, row_3gni, row_1atp, row_1b38, row_1s9j]"


text \<open>
  A frame for the file loops: next to the two entries of 4wtv, an entry with ANP in the
  pocket and an entry with an allosteric ligand. Both have the DFG motif and the
  \<open>\<alpha>C\<close> helix in, so that only the ligand filters keep them from being written.
\<close>

definition row_4an3 :: row where
  "row_4an3 = \<lparr>structure_ID = 7120, pdb = ''4an3'', alt = [], chain = ''A'',
     ligand = Str ''ATP'', allosteric_ligand = Str ''5Y0'', DFG = ''in'', aC_helix = ''in'',
     quality_score = 8, resolution = 2\<rparr>"

definition written_frame :: frame where
  "written_frame = [row_4wtv_B, row_4wtv_A, row_2src_B, row_4an3]"

text \<open>
  Stand-ins for the two library calls on the example: the PDB text of a structure is a
  short string, and an Mg atom is counted for every \<open>M\<close> in it.
\<close>

definition example_text :: "int \<Rightarrow> string" where
  "example_text i = (if i = 9095 then ''MM'' else if i = 1104 then ''M'' else ''-'')"

definition example_count :: "string \<Rightarrow> nat" where
  "example_count u = length (filter (\<lambda>c. c = CHR ''M'') u)"

section \<open>Properties of the filters\<close>

lemma group_filter_atp:
  "set (map ligand (pdb_group (filter_atp df) p)) \<subseteq> {Str ''ATP''}"
  by (auto simp: pdb_group_def filter_atp_def)

lemma single_ligand_own_group:
  assumes "r \<in> set (filter_atp df)"
  shows "single_ligand (pdb_group (filter_atp df) (pdb r))"
proof -
  from assms have "ligand r \<in> set (map ligand (pdb_group (filter_atp df) (pdb r)))"
    by (auto simp: pdb_group_def)
  moreover from assms have "ligand r = Str ''ATP''"
    by (simp add: filter_atp_def)
  ultimately have "set (map ligand (pdb_group (filter_atp df) (pdb r))) = {Str ''ATP''}"
    using group_filter_atp [of df "pdb r"] by auto
  then show ?thesis
    by (simp add: single_ligand_def)
qed

lemma filter_single_ligand_atp:
  "filter_single_ligand (filter_atp df) = filter_atp df"
  unfolding filter_single_ligand_def
  by (rule filter_True [THEN trans, OF _ refl]) (simp add: single_ligand_own_group)

lemma retrieve_filters_eq:
  "retrieve_filters df = filter (\<lambda>r. ligand r = Str ''ATP'' \<and> allosteric_ligand r = Num 0) df"
proof -
  have "retrieve_filters df = filter_no_allosteric (filter_atp df)"
    by (simp add: retrieve_filters_def filter_single_ligand_atp)
  then show ?thesis
    by (simp add: filter_no_allosteric_def filter_atp_def conj_commute)
qed

lemmas example_rows =
  row_4wtv_B_def row_4wtv_A_def row_1atp_def row_3gni_def row_1b38_def row_5hid_def
  row_1s9j_def row_2src_A_def row_2src_B_def

text \<open>
  C8. After the row filter \<open>ligand == "ATP"\<close>, the group filter for a single
  orthosteric ligand removes nothing: the two filters composed are the ATP filter,
  because every non-empty \<open>pdb\<close> group of the ATP-filtered frame holds one distinct
  ligand value.
\<close>

theorem single_ligand_after_atp_noop:
  "filter_single_ligand (filter_atp df) = filter_atp df
   \<and> (pdb_group (filter_atp df) p = [] \<or> single_ligand (pdb_group (filter_atp df) p))"
proof (cases "pdb_group (filter_atp df) p")
  case Nil
  then show ?thesis by (simp add: filter_single_ligand_atp)
next
  case (Cons r rs)
  then have "r \<in> set (pdb_group (filter_atp df) p)" by simp
  then have "r \<in> set (filter_atp df)" and "pdb r = p"
    by (simp_all add: pdb_group_def)
  then show ?thesis
    using single_ligand_own_group [of r df] by (simp add: filter_single_ligand_atp)
qed



section \<open>Properties of the conformation filter\<close>

text \<open>
  C7, as it is stated: every DFG value of the filtered frame is \<open>in\<close> or \<open>out\<close>. KLIFS
  also reports \<open>out-like\<close>, and the filter removes \<open>na\<close> only.
\<close>

theorem dfg_in_or_out_counterexample:
  "row_5hid \<in> set (pipeline [row_5hid]) \<and> DFG row_5hid \<noteq> ''in'' \<and> DFG row_5hid \<noteq> ''out''"
  by (simp add: pipeline_def filter_dfg_def select_best_def sort_values_def
      retrieve_filters_eq example_rows)

text \<open>C7, amended: no row of the filtered frame carries the DFG value \<open>na\<close>.\<close>

theorem dfg_never_na:
  "''na'' \<notin> set (map DFG (pipeline df))"
  by (auto simp: pipeline_def filter_dfg_def)

section \<open>Properties of the selection\<close>

lemma better_iff_sort_columns:
  "better r' r \<longleftrightarrow> sort_columns r' < sort_columns r"
  by (auto simp: better_def sort_columns_def)

lemma same_sort_columns_iff:
  "same_sort_columns r r' \<longleftrightarrow> sort_columns r = sort_columns r'"
  by (auto simp: same_sort_columns_def sort_columns_def)

lemma pdb_group_group_head:
  "pdb_group (group_head seen df) p =
     (if p \<in> set seen then [] else take 1 (pdb_group df p))"
proof (induction df arbitrary: seen)
  case Nil
  show ?case by (simp add: pdb_group_def)
next
  case (Cons r rs)
  show ?case
  proof (cases "pdb r \<in> set seen")
    case True
    then have "pdb_group (group_head seen (r # rs)) p = pdb_group (group_head seen rs) p"
      by simp
    also have "\<dots> = (if p \<in> set seen then [] else take 1 (pdb_group rs p))"
      by (rule Cons.IH)
    also have "\<dots> = (if p \<in> set seen then [] else take 1 (pdb_group (r # rs) p))"
      using True by (auto simp: pdb_group_def)
    finally show ?thesis .
  next
    case False
    have step: "pdb_group (group_head seen (r # rs)) p =
        (if pdb r = p then r # pdb_group (group_head (pdb r # seen) rs) p
         else pdb_group (group_head (pdb r # seen) rs) p)"
      using False by (simp add: pdb_group_def)
    show ?thesis
    proof (cases "pdb r = p")
      case True
      with False step Cons.IH [of "pdb r # seen"] show ?thesis
        by (simp add: pdb_group_def)
    next
      case neq: False
      with False step Cons.IH [of "pdb r # seen"] show ?thesis
        by (auto simp: pdb_group_def)
    qed
  qed
qed

lemma pdb_group_select_best:
  "pdb_group (select_best df) p = take 1 (sort_key sort_columns (pdb_group df p))"
  by (simp add: select_best_def pdb_group_group_head sort_values_def)
     (simp add: pdb_group_def filter_sort)

lemma in_own_pdb_group:
  "r \<in> set df \<longleftrightarrow> r \<in> set (pdb_group df (pdb r))"
  by (simp add: pdb_group_def)

lemma take1_sort_key_least:
  assumes "x \<in> set (take 1 (sort_key f ys))"
  shows "x \<in> set ys \<and> (\<forall>y\<in>set ys. f x \<le> f y)"
proof (cases "sort_key f ys")
  case Nil
  with assms show ?thesis by simp
next
  case (Cons a as)
  with assms have x: "x = a" by simp
  have "sorted (map f (sort_key f ys))" by (rule sorted_sort_key)
  with Cons have "\<forall>y\<in>set as. f a \<le> f y" by simp
  moreover have "set ys = set (a # as)"
    using Cons set_sort [of f ys] by simp
  ultimately show ?thesis using x by auto
qed

lemma select_best_least:
  assumes "r \<in> set (select_best df)"
  shows "r \<in> set df" and "\<And>r'. r' \<in> set df \<Longrightarrow> pdb r' = pdb r \<Longrightarrow> sort_columns r \<le> sort_columns r'"
proof -
  from assms have "r \<in> set (take 1 (sort_key sort_columns (pdb_group df (pdb r))))"
    using in_own_pdb_group [of r "select_best df"] by (simp add: pdb_group_select_best)
  then have *: "r \<in> set (pdb_group df (pdb r))
      \<and> (\<forall>y\<in>set (pdb_group df (pdb r)). sort_columns r \<le> sort_columns y)"
    by (rule take1_sort_key_least)
  then show "r \<in> set df" by (simp add: pdb_group_def)
  fix r' assume "r' \<in> set df" and "pdb r' = pdb r"
  then have "r' \<in> set (pdb_group df (pdb r))" by (simp add: pdb_group_def)
  with * show "sort_columns r \<le> sort_columns r'" by blast
qed

lemma length_pdb_group_select_best:
  "length (pdb_group (select_best df) p) = (if p \<in> pdb ` set df then 1 else 0)"
proof -
  have "pdb_group df p = [] \<longleftrightarrow> p \<notin> pdb ` set df"
    by (auto simp: pdb_group_def filter_empty_conv)
  moreover have "length (sort_key sort_columns (pdb_group df p)) = length (pdb_group df p)"
    by simp
  ultimately show ?thesis
    by (cases "pdb_group df p") (auto simp: pdb_group_select_best min_def)
qed

lemma pdb_group_head_fresh:
  "r \<in> set (group_head seen df) \<Longrightarrow> pdb r \<notin> set seen"
proof (induction df arbitrary: seen)
  case Nil
  then show ?case by simp
next
  case (Cons a df)
  show ?case
  proof (cases "pdb a \<in> set seen")
    case True
    with Cons.prems have "r \<in> set (group_head seen df)" by simp
    then show ?thesis by (rule Cons.IH)
  next
    case False
    with Cons.prems have "r = a \<or> r \<in> set (group_head (pdb a # seen) df)" by simp
    then show ?thesis
    proof
      assume "r = a"
      with False show ?thesis by simp
    next
      assume "r \<in> set (group_head (pdb a # seen) df)"
      then have "pdb r \<notin> set (pdb a # seen)" by (rule Cons.IH)
      then show ?thesis by simp
    qed
  qed
qed

lemma distinct_pdb_group_head:
  "distinct (map pdb (group_head seen df))"
proof (induction df arbitrary: seen)
  case Nil
  show ?case by simp
next
  case (Cons r rs)
  have "pdb r \<notin> pdb ` set (group_head (pdb r # seen) rs)"
    using pdb_group_head_fresh [of _ "pdb r # seen" rs] by fastforce
  with Cons.IH show ?case by simp
qed

lemma distinct_pdb_select_best:
  "distinct (map pdb (select_best df))"
  by (simp add: select_best_def distinct_pdb_group_head)

lemma sort_values_klifs_frame:
  "sort_values klifs_frame =
     [row_1atp, row_1b38, row_1s9j, row_4wtv_A, row_4wtv_B, row_3gni]"
  by (simp add: sort_values_def sort_columns_def klifs_frame_def example_rows)

lemma select_best_klifs_frame:
  "select_best klifs_frame = [row_1atp, row_1b38, row_1s9j, row_4wtv_A, row_3gni]"
  by (simp add: select_best_def sort_values_klifs_frame) (simp add: example_rows)

text \<open>
  C2. The selection returns rows of the frame, exactly one for every \<open>pdb\<close> value of
  the frame, and the selected row is optimal in its group: no row with the same \<open>pdb\<close>
  value is better in the order of preference.
\<close>

theorem select_best_one_per_pdb_optimal:
  "set (select_best df) \<subseteq> set df
   \<and> (\<forall>p\<in>pdb ` set df. length (pdb_group (select_best df) p) = 1)
   \<and> (\<forall>r\<in>set (select_best df). \<forall>r'\<in>set df. pdb r' = pdb r \<longrightarrow> \<not> better r' r)"
proof (intro conjI ballI impI)
  show "set (select_best df) \<subseteq> set df"
    using select_best_least(1) by blast
next
  fix p assume "p \<in> pdb ` set df"
  then show "length (pdb_group (select_best df) p) = 1"
    by (simp add: length_pdb_group_select_best)
next
  fix r r' assume "r \<in> set (select_best df)" and "r' \<in> set df" and "pdb r' = pdb r"
  then have "sort_columns r \<le> sort_columns r'"
    by (rule select_best_least(2))
  then show "\<not> better r' r"
    by (simp add: better_iff_sort_columns not_less)
qed

theorem select_best_one_per_pdb_optimal_witness:
  "row_4wtv_A \<in> set (select_best klifs_frame) \<and> row_4wtv_B \<in> set klifs_frame
   \<and> pdb row_4wtv_B = pdb row_4wtv_A \<and> \<not> better row_4wtv_B row_4wtv_A
   \<and> ''4wtv'' \<in> pdb ` set klifs_frame
   \<and> length (pdb_group (select_best klifs_frame) ''4wtv'') = 1"
proof -
  have a: "row_4wtv_A \<in> set (select_best klifs_frame)"
    by (simp add: select_best_klifs_frame)
  have b: "row_4wtv_B \<in> set klifs_frame"
    by (simp add: klifs_frame_def)
  have c: "pdb row_4wtv_B = pdb row_4wtv_A"
    by (simp add: example_rows)
  have d: "''4wtv'' \<in> pdb ` set klifs_frame"
    by (simp add: klifs_frame_def example_rows)
  from select_best_one_per_pdb_optimal [of klifs_frame] a b c d show ?thesis
    by blast
qed

text \<open>
  C9. The selection does not depend on the order of the rows: for two permutations of
  a frame in which no two different rows of a \<open>pdb\<close> group agree on all four sort
  columns, both runs select the same row for every \<open>pdb\<close> value.
\<close>

theorem select_best_order_independent:
  assumes perm: "mset xs = mset ys"
    and ties: "\<forall>r\<in>set xs. \<forall>r'\<in>set xs. pdb r = pdb r' \<and> same_sort_columns r r' \<longrightarrow> r = r'"
  shows "pdb_group (select_best xs) p = pdb_group (select_best ys) p"
proof -
  let ?gx = "sort_key sort_columns (pdb_group xs p)"
  let ?gy = "sort_key sort_columns (pdb_group ys p)"
  from perm have sets: "set xs = set ys" by (rule mset_eq_setD)
  then have groups: "set (pdb_group xs p) = set (pdb_group ys p)"
    by (simp add: pdb_group_def)
  have "take 1 ?gx = take 1 ?gy"
  proof (cases ?gx)
    case Nil
    then have "set (pdb_group xs p) = {}"
      using set_sort [of sort_columns "pdb_group xs p"] by simp
    with groups have "pdb_group xs p = []" and "pdb_group ys p = []" by simp_all
    then show ?thesis by simp
  next
    case gx: (Cons a as)
    then have "set (pdb_group ys p) \<noteq> {}"
      using groups set_sort [of sort_columns "pdb_group xs p"] by auto
    then have "?gy \<noteq> []"
      by (metis length_sort length_0_conv set_empty)
    then obtain b bs where gy: "?gy = b # bs"
      by (cases ?gy) auto
    from gx have "a \<in> set (take 1 ?gx)" by simp
    then have a: "a \<in> set (pdb_group xs p)" "\<forall>y\<in>set (pdb_group xs p). sort_columns a \<le> sort_columns y"
      using take1_sort_key_least [of a sort_columns "pdb_group xs p"] by simp_all
    from gy have "b \<in> set (take 1 ?gy)" by simp
    then have b: "b \<in> set (pdb_group ys p)" "\<forall>y\<in>set (pdb_group ys p). sort_columns b \<le> sort_columns y"
      using take1_sort_key_least [of b sort_columns "pdb_group ys p"] by simp_all
    from a b groups have "sort_columns a = sort_columns b"
      by (metis order_antisym)
    moreover from a b groups have "a \<in> set xs" "b \<in> set xs" "pdb a = p" "pdb b = p"
      by (auto simp: pdb_group_def)
    ultimately have "a = b"
      using ties by (simp add: same_sort_columns_iff)
    with gx gy show ?thesis by simp
  qed
  then show ?thesis by (simp add: pdb_group_select_best)
qed

theorem select_best_order_independent_witness:
  "mset [row_4wtv_B, row_4wtv_A, row_1atp] = mset [row_1atp, row_4wtv_A, row_4wtv_B]
   \<and> pdb_group (select_best [row_4wtv_B, row_4wtv_A, row_1atp]) ''4wtv''
     = pdb_group (select_best [row_1atp, row_4wtv_A, row_4wtv_B]) ''4wtv''
   \<and> pdb_group (select_best [row_4wtv_B, row_4wtv_A, row_1atp]) ''4wtv'' = [row_4wtv_A]"
proof -
  have perm: "mset [row_4wtv_B, row_4wtv_A, row_1atp] = mset [row_1atp, row_4wtv_A, row_4wtv_B]"
    by simp
  have ties: "\<forall>r\<in>set [row_4wtv_B, row_4wtv_A, row_1atp].
      \<forall>r'\<in>set [row_4wtv_B, row_4wtv_A, row_1atp].
        pdb r = pdb r' \<and> same_sort_columns r r' \<longrightarrow> r = r'"
    by (simp add: same_sort_columns_def example_rows)
  have "pdb_group (select_best [row_4wtv_B, row_4wtv_A, row_1atp]) ''4wtv'' = [row_4wtv_A]"
    by (simp add: pdb_group_select_best)
       (simp add: pdb_group_def sort_columns_def example_rows)
  with select_best_order_independent [OF perm ties, of "''4wtv''"] perm show ?thesis
    by simp
qed

section \<open>Properties of the file loops\<close>

lemma pdb_file_inject:
  "pdb_file d p = pdb_file d q \<longleftrightarrow> p = q"
  by (simp add: pdb_file_def)

lemmas directories =
  directory_def directory_no_mg_def directory_one_mg_def directory_two_mg_def
  directory_more_mg_def

lemma mg_directory_cases:
  "mg_directory n = directory @ ''/no_mg'' \<or> mg_directory n = directory @ ''/one_mg''
   \<or> mg_directory n = directory @ ''/two_mg'' \<or> mg_directory n = directory @ ''/more_mg''"
  by (simp add: mg_directory_def directories)

lemma pdb_file_mg_directory_inject:
  assumes "pdb_file (mg_directory m) p = pdb_file (mg_directory n) q"
  shows "p = q"
  using assms mg_directory_cases [of m] mg_directory_cases [of n]
  by (auto simp: pdb_file_def)

lemma pdb_file_directory_not_mg:
  assumes "plain_name p"
  shows "pdb_file directory p \<noteq> pdb_file (mg_directory n) q"
proof
  assume eq: "pdb_file directory p = pdb_file (mg_directory n) q"
  have "\<exists>b. p @ ''.pdb'' = b @ ''/'' @ q @ ''.pdb''"
    using eq mg_directory_cases [of n] by (auto simp: pdb_file_def)
  then obtain b where "p @ ''.pdb'' = b @ ''/'' @ q @ ''.pdb''" ..
  then have "CHR ''/'' \<in> set (p @ ''.pdb'')" by simp
  with assms show False by (simp add: plain_name_def)
qed

lemma map_add_written:
  "(m(k \<mapsto> v)) ++ map_of (rev ps) = m ++ map_of (rev ((k, v) # ps))"
proof -
  have "m ++ map_of (rev ((k, v) # ps)) = m ++ (map_of [(k, v)] ++ map_of (rev ps))"
    by (simp only: rev.simps map_of_append)
  also have "\<dots> = (m ++ map_of [(k, v)]) ++ map_of (rev ps)"
    by (simp only: map_add_assoc)
  also have "m ++ map_of [(k, v)] = m(k \<mapsto> v)"
    by simp
  finally show ?thesis by simp
qed

lemma write_complexes_run:
  "writes (write_complexes txt rs st) = writes st @ map complex_path rs
   \<and> contents (write_complexes txt rs st)
       = contents st ++ map_of (rev (map (\<lambda>r. (complex_path r, txt (structure_ID r))) rs))"
proof (induction rs arbitrary: st)
  case Nil
  show ?case by simp
next
  case (Cons r rs)
  let ?st = "write_file (pdb_file directory (pdb r)) (txt (structure_ID r)) st"
  let ?ps = "map (\<lambda>r. (complex_path r, txt (structure_ID r))) rs"
  have c: "contents ?st = (contents st)(complex_path r \<mapsto> txt (structure_ID r))"
    by (simp add: write_file_def complex_path_def)
  have w: "writes ?st = writes st @ [complex_path r]"
    by (simp add: write_file_def complex_path_def)
  have ih: "writes (write_complexes txt rs ?st) = writes ?st @ map complex_path rs"
    "contents (write_complexes txt rs ?st) = contents ?st ++ map_of (rev ?ps)"
    using Cons.IH [of ?st] by blast+
  have "writes (write_complexes txt (r # rs) st) = writes st @ map complex_path (r # rs)"
    using ih(1) w by simp
  moreover have "contents (write_complexes txt (r # rs) st)
      = contents st ++ map_of (rev (map (\<lambda>r. (complex_path r, txt (structure_ID r))) (r # rs)))"
  proof -
    have "contents (write_complexes txt (r # rs) st) = contents (write_complexes txt rs ?st)"
      by simp
    also have "\<dots> = contents ?st ++ map_of (rev ?ps)"
      by (rule ih(2))
    also have "\<dots> = (contents st)(complex_path r \<mapsto> txt (structure_ID r)) ++ map_of (rev ?ps)"
      by (simp only: c)
    also have "\<dots> = contents st ++ map_of (rev ((complex_path r, txt (structure_ID r)) # ?ps))"
      by (rule map_add_written)
    finally show ?thesis by simp
  qed
  ultimately show ?case by blast
qed

lemma map_of_rev_written:
  assumes "distinct (map f rs)" and "r \<in> set rs"
  shows "map_of (rev (map (\<lambda>r. (f r, g r)) rs)) (f r) = Some (g r)"
proof (rule map_of_is_SomeI)
  have "map fst (rev (map (\<lambda>r. (f r, g r)) rs)) = rev (map f rs)"
    by (simp add: rev_map comp_def)
  with assms(1) show "distinct (map fst (rev (map (\<lambda>r. (f r, g r)) rs)))"
    by simp
  from assms(2) show "(f r, g r) \<in> set (rev (map (\<lambda>r. (f r, g r)) rs))"
    by auto
qed

lemma distinct_paths:
  assumes "distinct (map pdb rs)" and "\<And>r r'. f r = f r' \<Longrightarrow> pdb r = pdb r'"
  shows "distinct (map f rs)"
proof -
  from assms(1) have "distinct rs" and "inj_on pdb (set rs)"
    by (simp_all add: distinct_map)
  then have "inj_on f (set rs)"
    using assms(2) by (meson inj_on_def)
  with \<open>distinct rs\<close> show ?thesis by (simp add: distinct_map)
qed

lemma distinct_complex_paths:
  "distinct (map pdb rs) \<Longrightarrow> distinct (map complex_path rs)"
  by (rule distinct_paths) (simp_all add: complex_path_def pdb_file_inject)

lemma distinct_mg_paths:
  "distinct (map pdb rs) \<Longrightarrow> distinct (map (mg_path cnt txt) rs)"
  by (rule distinct_paths) (auto simp: mg_path_def dest: pdb_file_mg_directory_inject)

lemma mg_step_run:
  assumes "contents (files s) (pdb_file directory (pdb r)) = Some u"
  shows "\<exists>s'. mg_step cnt txt r s = Inr s'
    \<and> writes (files s') = writes (files s) @ [pdb_file (mg_directory (cnt u)) (pdb r)]
    \<and> contents (files s')
        = contents (files s) ++ [pdb_file (mg_directory (cnt u)) (pdb r) \<mapsto> txt (structure_ID r)]
    \<and> no_mg s' = no_mg s @ map pdb (filter (\<lambda>r. cnt u = 0) [r])
    \<and> one_mg s' = one_mg s @ map pdb (filter (\<lambda>r. cnt u = 1) [r])
    \<and> two_mg s' = two_mg s @ map pdb (filter (\<lambda>r. cnt u = 2) [r])
    \<and> more_mg s' = more_mg s @ map pdb (filter (\<lambda>r. 2 < cnt u) [r])"
  using assms by (simp add: mg_step_def mg_directory_def write_file_def Let_def)

lemma mg_loop_run:
  assumes "\<forall>r\<in>set rs. plain_name (pdb r)"
    and "\<forall>r\<in>set rs. contents (files s) (complex_path r) = Some (u r)"
  shows "\<exists>s'. mg_loop cnt txt rs s = Inr s'
    \<and> writes (files s')
        = writes (files s) @ map (\<lambda>r. pdb_file (mg_directory (cnt (u r))) (pdb r)) rs
    \<and> contents (files s')
        = contents (files s) ++ map_of (rev (map (\<lambda>r. (pdb_file (mg_directory (cnt (u r))) (pdb r),
                                                          txt (structure_ID r))) rs))
    \<and> no_mg s' = no_mg s @ map pdb (filter (\<lambda>r. cnt (u r) = 0) rs)
    \<and> one_mg s' = one_mg s @ map pdb (filter (\<lambda>r. cnt (u r) = 1) rs)
    \<and> two_mg s' = two_mg s @ map pdb (filter (\<lambda>r. cnt (u r) = 2) rs)
    \<and> more_mg s' = more_mg s @ map pdb (filter (\<lambda>r. 2 < cnt (u r)) rs)"
  using assms
proof (induction rs arbitrary: s)
  case Nil
  show ?case by simp
next
  case (Cons r rs)
  let ?k = "pdb_file (mg_directory (cnt (u r))) (pdb r)"
  let ?ps = "map (\<lambda>r. (pdb_file (mg_directory (cnt (u r))) (pdb r), txt (structure_ID r))) rs"
  from Cons.prems(2) have "contents (files s) (pdb_file directory (pdb r)) = Some (u r)"
    by (simp add: complex_path_def)
  from mg_step_run [OF this, of cnt "txt"] obtain s1 where
    step: "mg_step cnt txt r s = Inr s1"
    and w1: "writes (files s1) = writes (files s) @ [?k]"
    and c1: "contents (files s1) = contents (files s) ++ [?k \<mapsto> txt (structure_ID r)]"
    and l1: "no_mg s1 = no_mg s @ map pdb (filter (\<lambda>x. cnt (u r) = 0) [r])"
      "one_mg s1 = one_mg s @ map pdb (filter (\<lambda>x. cnt (u r) = 1) [r])"
      "two_mg s1 = two_mg s @ map pdb (filter (\<lambda>x. cnt (u r) = 2) [r])"
      "more_mg s1 = more_mg s @ map pdb (filter (\<lambda>x. 2 < cnt (u r)) [r])"
    by blast
  have plain: "\<forall>r'\<in>set rs. plain_name (pdb r')"
    using Cons.prems(1) by simp
  have kept: "\<forall>r'\<in>set rs. contents (files s1) (complex_path r') = Some (u r')"
  proof
    fix r' assume r': "r' \<in> set rs"
    with plain have "complex_path r' \<noteq> ?k"
      by (simp add: complex_path_def pdb_file_directory_not_mg)
    then have "contents (files s1) (complex_path r') = contents (files s) (complex_path r')"
      by (simp add: c1 map_add_def)
    with Cons.prems(2) r' show "contents (files s1) (complex_path r') = Some (u r')"
      by simp
  qed
  from Cons.IH [OF plain kept] obtain s' where
    run: "mg_loop cnt txt rs s1 = Inr s'"
    and w: "writes (files s')
        = writes (files s1) @ map (\<lambda>r. pdb_file (mg_directory (cnt (u r))) (pdb r)) rs"
    and c: "contents (files s') = contents (files s1) ++ map_of (rev ?ps)"
    and l: "no_mg s' = no_mg s1 @ map pdb (filter (\<lambda>r. cnt (u r) = 0) rs)"
      "one_mg s' = one_mg s1 @ map pdb (filter (\<lambda>r. cnt (u r) = 1) rs)"
      "two_mg s' = two_mg s1 @ map pdb (filter (\<lambda>r. cnt (u r) = 2) rs)"
      "more_mg s' = more_mg s1 @ map pdb (filter (\<lambda>r. 2 < cnt (u r)) rs)"
    by blast
  have "mg_loop cnt txt (r # rs) s = Inr s'"
    by (simp add: step run)
  moreover have "writes (files s')
      = writes (files s) @ map (\<lambda>r. pdb_file (mg_directory (cnt (u r))) (pdb r)) (r # rs)"
    by (simp add: w w1)
  moreover have "contents (files s')
      = contents (files s) ++ map_of (rev (map (\<lambda>r. (pdb_file (mg_directory (cnt (u r))) (pdb r),
                                                         txt (structure_ID r))) (r # rs)))"
  proof -
    have "contents (files s1) = (contents (files s))(?k \<mapsto> txt (structure_ID r))"
      by (simp add: c1)
    then have "contents (files s') = (contents (files s))(?k \<mapsto> txt (structure_ID r)) ++ map_of (rev ?ps)"
      by (simp only: c)
    also have "\<dots> = contents (files s) ++ map_of (rev ((?k, txt (structure_ID r)) # ?ps))"
      by (rule map_add_written)
    finally show ?thesis by simp
  qed
  moreover have "no_mg s' = no_mg s @ map pdb (filter (\<lambda>r. cnt (u r) = 0) (r # rs))"
    by (simp add: l(1) l1(1))
  moreover have "one_mg s' = one_mg s @ map pdb (filter (\<lambda>r. cnt (u r) = 1) (r # rs))"
    by (simp add: l(2) l1(2))
  moreover have "two_mg s' = two_mg s @ map pdb (filter (\<lambda>r. cnt (u r) = 2) (r # rs))"
    by (simp add: l(3) l1(3))
  moreover have "more_mg s' = more_mg s @ map pdb (filter (\<lambda>r. 2 < cnt (u r)) (r # rs))"
    by (simp add: l(4) l1(4))
  ultimately show ?case by blast
qed

lemma processed_iff:
  "r \<in> set (aC_in (pipeline df)) \<longleftrightarrow>
     r \<in> set (select_best (retrieve_filters df)) \<and> DFG r \<noteq> ''na'' \<and> aC_helix r = ''in''"
  by (auto simp: aC_in_def pipeline_def filter_dfg_def)

lemma processed_plain:
  assumes "plain_names df"
  shows "\<forall>r\<in>set (aC_in (pipeline df)). plain_name (pdb r)"
proof
  fix r assume "r \<in> set (aC_in (pipeline df))"
  then have "r \<in> set (select_best (retrieve_filters df))"
    by (simp add: processed_iff)
  then have "r \<in> set (retrieve_filters df)"
    by (rule select_best_least(1))
  then have "r \<in> set df"
    by (simp add: retrieve_filters_eq)
  with assms show "plain_name (pdb r)"
    by (simp add: plain_names_def list_all_iff)
qed

lemma processed_distinct:
  "distinct (map pdb (aC_in (pipeline df)))"
  by (simp add: aC_in_def pipeline_def filter_dfg_def distinct_map_filter distinct_pdb_select_best)

lemma retrieve_complexes_run:
  "writes (retrieve_complexes txt (pipeline df) (initial_store fs))
     = map complex_path (aC_in (pipeline df))"
  "r \<in> set (aC_in (pipeline df)) \<Longrightarrow>
     contents (retrieve_complexes txt (pipeline df) (initial_store fs)) (complex_path r)
       = Some (txt (structure_ID r))"
proof -
  let ?rs = "aC_in (pipeline df)"
  note run = write_complexes_run [of "txt" ?rs "initial_store fs"]
  from run show "writes (retrieve_complexes txt (pipeline df) (initial_store fs))
      = map complex_path ?rs"
    by (simp add: retrieve_complexes_def initial_store_def)
  assume r: "r \<in> set ?rs"
  have "distinct (map complex_path ?rs)"
    by (rule distinct_complex_paths) (rule processed_distinct)
  from map_of_rev_written [OF this r, of "\<lambda>r. txt (structure_ID r)"]
  have "map_of (rev (map (\<lambda>r. (complex_path r, txt (structure_ID r))) ?rs)) (complex_path r)
      = Some (txt (structure_ID r))" .
  then show "contents (retrieve_complexes txt (pipeline df) (initial_store fs)) (complex_path r)
      = Some (txt (structure_ID r))"
    using run by (simp add: retrieve_complexes_def map_add_Some_iff)
qed

lemma notebook_run:
  assumes "plain_names df"
  shows "\<exists>s. notebook cnt text1 text2 df (initial_store fs) = Inr s
    \<and> writes (files s)
        = map complex_path (aC_in (pipeline df)) @ map (mg_path cnt text1) (aC_in (pipeline df))
    \<and> (\<forall>r\<in>set (aC_in (pipeline df)).
          contents (files s) (mg_path cnt text1 r) = Some (text2 (structure_ID r)))
    \<and> no_mg s = map pdb (filter (\<lambda>r. cnt (text1 (structure_ID r)) = 0) (aC_in (pipeline df)))
    \<and> one_mg s = map pdb (filter (\<lambda>r. cnt (text1 (structure_ID r)) = 1) (aC_in (pipeline df)))
    \<and> two_mg s = map pdb (filter (\<lambda>r. cnt (text1 (structure_ID r)) = 2) (aC_in (pipeline df)))
    \<and> more_mg s = map pdb (filter (\<lambda>r. 2 < cnt (text1 (structure_ID r))) (aC_in (pipeline df)))"
proof -
  let ?rs = "aC_in (pipeline df)"
  let ?st = "retrieve_complexes text1 (pipeline df) (initial_store fs)"
  let ?s0 = "\<lparr>files = ?st, no_mg = [], one_mg = [], two_mg = [], more_mg = []\<rparr>"
  let ?ps = "map (\<lambda>r. (mg_path cnt text1 r, text2 (structure_ID r))) ?rs"
  have present: "\<forall>r\<in>set ?rs. contents (files ?s0) (complex_path r) = Some (text1 (structure_ID r))"
    by (simp add: retrieve_complexes_run(2))
  from mg_loop_run [OF processed_plain [OF assms] present, of cnt text2]
  obtain s where run: "mg_loop cnt text2 ?rs ?s0 = Inr s"
    and w: "writes (files s) = writes (files ?s0) @ map (mg_path cnt text1) ?rs"
    and c: "contents (files s) = contents (files ?s0) ++ map_of (rev ?ps)"
    and l: "no_mg s = no_mg ?s0 @ map pdb (filter (\<lambda>r. cnt (text1 (structure_ID r)) = 0) ?rs)"
      "one_mg s = one_mg ?s0 @ map pdb (filter (\<lambda>r. cnt (text1 (structure_ID r)) = 1) ?rs)"
      "two_mg s = two_mg ?s0 @ map pdb (filter (\<lambda>r. cnt (text1 (structure_ID r)) = 2) ?rs)"
      "more_mg s = more_mg ?s0 @ map pdb (filter (\<lambda>r. 2 < cnt (text1 (structure_ID r))) ?rs)"
    unfolding mg_path_def by blast
  have "notebook cnt text1 text2 df (initial_store fs) = Inr s"
    using run by (simp add: notebook_def split_by_mg_def Let_def)
  moreover have "writes (files s) = map complex_path ?rs @ map (mg_path cnt text1) ?rs"
    using w by (simp add: retrieve_complexes_run(1))
  moreover have "\<forall>r\<in>set ?rs. contents (files s) (mg_path cnt text1 r) = Some (text2 (structure_ID r))"
  proof
    fix r assume r: "r \<in> set ?rs"
    have "distinct (map (mg_path cnt text1) ?rs)"
      by (rule distinct_mg_paths) (rule processed_distinct)
    from map_of_rev_written [OF this r, of "\<lambda>r. text2 (structure_ID r)"]
    show "contents (files s) (mg_path cnt text1 r) = Some (text2 (structure_ID r))"
      by (simp add: c map_add_Some_iff)
  qed
  moreover note l
  ultimately show ?thesis by simp
qed

lemma complex_written_selected:
  "pdb_file directory p \<in> set (writes (retrieve_complexes text1 (pipeline df) (initial_store fs)))
     \<longleftrightarrow> (\<exists>r\<in>set (select_best (retrieve_filters df)).
            pdb r = p \<and> DFG r \<noteq> ''na'' \<and> aC_helix r = ''in'')"
proof -
  have "pdb_file directory p \<in> set (map complex_path (aC_in (pipeline df)))
        \<longleftrightarrow> (\<exists>r\<in>set (aC_in (pipeline df)). pdb r = p)"
    by (auto simp: complex_path_def pdb_file_inject)
  then show ?thesis
    by (auto simp: retrieve_complexes_run(1) processed_iff)
qed

lemma selected_row_filters:
  assumes "r \<in> set (select_best (retrieve_filters df))"
  shows "r \<in> set df \<and> ligand r = Str ''ATP''
    \<and> card (ligand ` {r' \<in> set df. ligand r' = Str ''ATP'' \<and> pdb r' = pdb r}) = 1
    \<and> allosteric_ligand r = Num 0
    \<and> (\<forall>r'\<in>set df. pdb r' = pdb r \<and> ligand r' = Str ''ATP'' \<and> allosteric_ligand r' = Num 0
          \<longrightarrow> \<not> better r' r)"
proof -
  from assms have kept: "r \<in> set (retrieve_filters df)"
    by (rule select_best_least(1))
  then have row: "r \<in> set df" "ligand r = Str ''ATP''" "allosteric_ligand r = Num 0"
    by (simp_all add: retrieve_filters_eq)
  then have "r \<in> set (filter_atp df)"
    by (simp add: filter_atp_def)
  then have "single_ligand (pdb_group (filter_atp df) (pdb r))"
    by (rule single_ligand_own_group)
  moreover have "set (map ligand (pdb_group (filter_atp df) (pdb r)))
      = ligand ` {r' \<in> set df. ligand r' = Str ''ATP'' \<and> pdb r' = pdb r}"
    by (auto simp: pdb_group_def filter_atp_def)
  ultimately have single: "card (ligand ` {r' \<in> set df. ligand r' = Str ''ATP'' \<and> pdb r' = pdb r}) = 1"
    by (simp only: single_ligand_def)
  have "\<forall>r'\<in>set df. pdb r' = pdb r \<and> ligand r' = Str ''ATP'' \<and> allosteric_ligand r' = Num 0
      \<longrightarrow> \<not> better r' r"
  proof (intro ballI impI)
    fix r' assume "r' \<in> set df"
      and r': "pdb r' = pdb r \<and> ligand r' = Str ''ATP'' \<and> allosteric_ligand r' = Num 0"
    then have "r' \<in> set (retrieve_filters df)"
      by (simp add: retrieve_filters_eq)
    with assms r' have "sort_columns r \<le> sort_columns r'"
      by (simp add: select_best_least(2))
    then show "\<not> better r' r"
      by (simp add: better_iff_sort_columns not_less)
  qed
  with row single show ?thesis by simp
qed

text \<open>
  C5. For PDB identifiers as \<open>pdb\<close> values, the first loop writes the file
  \<open>{pdb}.pdb\<close> to the directory \<open>kinases/atp\<close> if and only if the retrieved frame has a
  row with that \<open>pdb\<close> value which survives the three filters (its ligand is ATP, the
  ATP rows of its \<open>pdb\<close> value hold one distinct ligand value, its allosteric ligand
  is 0), survives the selection (it is the row selected for that \<open>pdb\<close> value, and no
  row of that \<open>pdb\<close> value that passes the filters is better), has a DFG value other
  than \<open>na\<close> and has the \<open>\<alpha>C\<close> helix in; the file then holds the text retrieved for that
  row. The Mg loop writes below that directory only, so the same holds for the notebook
  as a whole.
\<close>

theorem complex_written_iff:
  assumes "plain_names df"
  shows "(pdb_file directory p \<in> set (writes (retrieve_complexes text1 (pipeline df) (initial_store fs)))
          \<longleftrightarrow> (\<exists>r\<in>set (select_best (retrieve_filters df)).
                 pdb r = p \<and> r \<in> set df
                 \<and> ligand r = Str ''ATP''
                 \<and> card (ligand ` {r' \<in> set df. ligand r' = Str ''ATP'' \<and> pdb r' = pdb r}) = 1
                 \<and> allosteric_ligand r = Num 0
                 \<and> (\<forall>r'\<in>set df. pdb r' = pdb r \<and> ligand r' = Str ''ATP''
                        \<and> allosteric_ligand r' = Num 0 \<longrightarrow> \<not> better r' r)
                 \<and> DFG r \<noteq> ''na'' \<and> aC_helix r = ''in''))
       \<and> (\<forall>r\<in>set (select_best (retrieve_filters df)).
             DFG r \<noteq> ''na'' \<and> aC_helix r = ''in'' \<longrightarrow>
             contents (retrieve_complexes text1 (pipeline df) (initial_store fs))
               (pdb_file directory (pdb r)) = Some (text1 (structure_ID r)))
       \<and> (\<exists>s. notebook cnt text1 text2 df (initial_store fs) = Inr s
             \<and> (plain_name p \<longrightarrow>
                  (pdb_file directory p \<in> set (writes (files s))
                   \<longleftrightarrow> (\<exists>r\<in>set (select_best (retrieve_filters df)).
                          pdb r = p \<and> r \<in> set df
                          \<and> ligand r = Str ''ATP''
                          \<and> card (ligand ` {r' \<in> set df. ligand r' = Str ''ATP'' \<and> pdb r' = pdb r}) = 1
                          \<and> allosteric_ligand r = Num 0
                          \<and> (\<forall>r'\<in>set df. pdb r' = pdb r \<and> ligand r' = Str ''ATP''
                                 \<and> allosteric_ligand r' = Num 0 \<longrightarrow> \<not> better r' r)
                          \<and> DFG r \<noteq> ''na'' \<and> aC_helix r = ''in''))))"
proof -
  let ?first = "pdb_file directory p
      \<in> set (writes (retrieve_complexes text1 (pipeline df) (initial_store fs)))"
  let ?short = "\<exists>r\<in>set (select_best (retrieve_filters df)).
      pdb r = p \<and> DFG r \<noteq> ''na'' \<and> aC_helix r = ''in''"
  let ?spelled = "\<exists>r\<in>set (select_best (retrieve_filters df)).
      pdb r = p \<and> r \<in> set df
      \<and> ligand r = Str ''ATP''
      \<and> card (ligand ` {r' \<in> set df. ligand r' = Str ''ATP'' \<and> pdb r' = pdb r}) = 1
      \<and> allosteric_ligand r = Num 0
      \<and> (\<forall>r'\<in>set df. pdb r' = pdb r \<and> ligand r' = Str ''ATP''
             \<and> allosteric_ligand r' = Num 0 \<longrightarrow> \<not> better r' r)
      \<and> DFG r \<noteq> ''na'' \<and> aC_helix r = ''in''"
  have spell: "?short \<longleftrightarrow> ?spelled"
  proof
    assume ?short
    then obtain r where r: "r \<in> set (select_best (retrieve_filters df))"
      and p: "pdb r = p" "DFG r \<noteq> ''na''" "aC_helix r = ''in''"
      by blast
    from selected_row_filters [OF r] r p show ?spelled
      by blast
  next
    assume ?spelled
    then show ?short by blast
  qed
  have first: "?first \<longleftrightarrow> ?spelled"
    using complex_written_selected [of p text1 df fs] spell by simp
  have stored: "\<forall>r\<in>set (select_best (retrieve_filters df)).
      DFG r \<noteq> ''na'' \<and> aC_helix r = ''in'' \<longrightarrow>
      contents (retrieve_complexes text1 (pipeline df) (initial_store fs))
        (pdb_file directory (pdb r)) = Some (text1 (structure_ID r))"
  proof (intro ballI impI)
    fix r assume "r \<in> set (select_best (retrieve_filters df))"
      and "DFG r \<noteq> ''na'' \<and> aC_helix r = ''in''"
    then have "r \<in> set (aC_in (pipeline df))"
      by (simp add: processed_iff)
    then show "contents (retrieve_complexes text1 (pipeline df) (initial_store fs))
        (pdb_file directory (pdb r)) = Some (text1 (structure_ID r))"
      using retrieve_complexes_run(2) [of r df text1 fs] by (simp add: complex_path_def)
  qed
  from notebook_run [OF assms, of cnt text1 text2 fs] obtain s where
    run: "notebook cnt text1 text2 df (initial_store fs) = Inr s"
    and w: "writes (files s)
       = map complex_path (aC_in (pipeline df)) @ map (mg_path cnt text1) (aC_in (pipeline df))"
    by blast
  have whole: "plain_name p \<longrightarrow> (pdb_file directory p \<in> set (writes (files s)) \<longleftrightarrow> ?spelled)"
  proof
    assume "plain_name p"
    then have "pdb_file directory p \<notin> set (map (mg_path cnt text1) (aC_in (pipeline df)))"
      by (auto simp: mg_path_def pdb_file_directory_not_mg)
    then have "pdb_file directory p \<in> set (writes (files s)) \<longleftrightarrow> ?first"
      by (simp add: w retrieve_complexes_run(1))
    with first show "pdb_file directory p \<in> set (writes (files s)) \<longleftrightarrow> ?spelled"
      by simp
  qed
  from run whole have "\<exists>s. notebook cnt text1 text2 df (initial_store fs) = Inr s
      \<and> (plain_name p \<longrightarrow> (pdb_file directory p \<in> set (writes (files s)) \<longleftrightarrow> ?spelled))"
    by blast
  with first stored show ?thesis by blast
qed

lemma pipeline_klifs_frame:
  "pipeline klifs_frame = [row_1atp, row_1b38, row_4wtv_A]"
proof -
  have "retrieve_filters klifs_frame = [row_4wtv_B, row_4wtv_A, row_3gni, row_1atp, row_1b38]"
    by (simp add: retrieve_filters_eq klifs_frame_def example_rows)
  moreover have "sort_values [row_4wtv_B, row_4wtv_A, row_3gni, row_1atp, row_1b38]
      = [row_1atp, row_1b38, row_4wtv_A, row_4wtv_B, row_3gni]"
    by (simp add: sort_values_def sort_columns_def example_rows)
  moreover have "group_head [] [row_1atp, row_1b38, row_4wtv_A, row_4wtv_B, row_3gni]
      = [row_1atp, row_1b38, row_4wtv_A, row_3gni]"
    by (simp add: example_rows)
  moreover have "filter_dfg [row_1atp, row_1b38, row_4wtv_A, row_3gni]
      = [row_1atp, row_1b38, row_4wtv_A]"
    by (simp add: filter_dfg_def example_rows)
  ultimately show ?thesis
    by (simp add: pipeline_def select_best_def)
qed

lemma processed_klifs_frame:
  "aC_in (pipeline klifs_frame) = [row_1atp, row_4wtv_A]"
  by (simp add: pipeline_klifs_frame aC_in_def) (simp add: example_rows)

lemma plain_names_klifs_frame:
  "plain_names klifs_frame"
  by (simp add: plain_names_def plain_name_def klifs_frame_def example_rows)

lemma selected_written_frame:
  "select_best (retrieve_filters written_frame) = [row_4wtv_A]"
  "select_best written_frame = [row_4an3, row_2src_B, row_4wtv_A]"
proof -
  have "retrieve_filters written_frame = [row_4wtv_B, row_4wtv_A]"
    by (simp add: retrieve_filters_eq written_frame_def example_rows row_4an3_def)
  moreover have "sort_values [row_4wtv_B, row_4wtv_A] = [row_4wtv_A, row_4wtv_B]"
    by (simp add: sort_values_def sort_columns_def example_rows)
  moreover have "group_head [] [row_4wtv_A, row_4wtv_B] = [row_4wtv_A]"
    by (simp add: example_rows)
  ultimately show "select_best (retrieve_filters written_frame) = [row_4wtv_A]"
    by (simp add: select_best_def)
  have "sort_values written_frame = [row_4an3, row_2src_B, row_4wtv_A, row_4wtv_B]"
    by (simp add: sort_values_def sort_columns_def written_frame_def example_rows row_4an3_def)
  moreover have "group_head [] [row_4an3, row_2src_B, row_4wtv_A, row_4wtv_B]
      = [row_4an3, row_2src_B, row_4wtv_A]"
    by (simp add: example_rows row_4an3_def)
  ultimately show "select_best written_frame = [row_4an3, row_2src_B, row_4wtv_A]"
    by (simp add: select_best_def)
qed

lemma plain_names_written_frame:
  "plain_names written_frame"
  by (simp add: plain_names_def plain_name_def written_frame_def example_rows row_4an3_def)

theorem complex_written_iff_witness:
  "plain_names written_frame \<and> plain_name ''4wtv'' \<and> plain_name ''2src'' \<and> plain_name ''4an3''
   \<and> row_4wtv_A \<in> set (select_best (retrieve_filters written_frame))
   \<and> DFG row_4wtv_A \<noteq> ''na'' \<and> aC_helix row_4wtv_A = ''in''
   \<and> pdb_file directory ''4wtv''
       \<in> set (writes (retrieve_complexes example_text (pipeline written_frame) (initial_store Map.empty)))
   \<and> contents (retrieve_complexes example_text (pipeline written_frame) (initial_store Map.empty))
       (pdb_file directory ''4wtv'') = Some ''MM''
   \<and> row_2src_B \<in> set (select_best written_frame)
   \<and> DFG row_2src_B \<noteq> ''na'' \<and> aC_helix row_2src_B = ''in''
   \<and> pdb_file directory ''2src''
       \<notin> set (writes (retrieve_complexes example_text (pipeline written_frame) (initial_store Map.empty)))
   \<and> row_4an3 \<in> set (select_best written_frame)
   \<and> DFG row_4an3 \<noteq> ''na'' \<and> aC_helix row_4an3 = ''in''
   \<and> pdb_file directory ''4an3''
       \<notin> set (writes (retrieve_complexes example_text (pipeline written_frame) (initial_store Map.empty)))
   \<and> (\<exists>s. notebook example_count example_text example_text written_frame (initial_store Map.empty)
            = Inr s
          \<and> pdb_file directory ''4wtv'' \<in> set (writes (files s))
          \<and> pdb_file directory ''2src'' \<notin> set (writes (files s))
          \<and> pdb_file directory ''4an3'' \<notin> set (writes (files s)))"
proof -
  let ?st = "retrieve_complexes example_text (pipeline written_frame) (initial_store Map.empty)"
  note inst = complex_written_iff [OF plain_names_written_frame,
      of _ example_text Map.empty example_count example_text]
  have plain: "plain_name ''4wtv''" "plain_name ''2src''" "plain_name ''4an3''"
    by (simp_all add: plain_name_def)
  have row: "pdb row_4wtv_A = ''4wtv''" "DFG row_4wtv_A \<noteq> ''na''" "aC_helix row_4wtv_A = ''in''"
    "example_text (structure_ID row_4wtv_A) = ''MM''"
    "DFG row_2src_B \<noteq> ''na''" "aC_helix row_2src_B = ''in''"
    "DFG row_4an3 \<noteq> ''na''" "aC_helix row_4an3 = ''in''"
    "pdb row_4wtv_A \<noteq> ''2src''" "pdb row_4wtv_A \<noteq> ''4an3''"
    by (simp_all add: example_rows row_4an3_def example_text_def)
  have sel: "row_4wtv_A \<in> set (select_best (retrieve_filters written_frame))"
    "row_2src_B \<in> set (select_best written_frame)" "row_4an3 \<in> set (select_best written_frame)"
    by (simp_all add: selected_written_frame)
  have short: "\<exists>r\<in>set (select_best (retrieve_filters written_frame)).
      pdb r = ''4wtv'' \<and> DFG r \<noteq> ''na'' \<and> aC_helix r = ''in''"
    using sel(1) row by blast
  have spelled: "\<exists>r\<in>set (select_best (retrieve_filters written_frame)).
      pdb r = ''4wtv'' \<and> r \<in> set written_frame
      \<and> ligand r = Str ''ATP''
      \<and> card (ligand ` {r' \<in> set written_frame. ligand r' = Str ''ATP'' \<and> pdb r' = pdb r}) = 1
      \<and> allosteric_ligand r = Num 0
      \<and> (\<forall>r'\<in>set written_frame. pdb r' = pdb r \<and> ligand r' = Str ''ATP''
             \<and> allosteric_ligand r' = Num 0 \<longrightarrow> \<not> better r' r)
      \<and> DFG r \<noteq> ''na'' \<and> aC_helix r = ''in''"
    using selected_row_filters [OF sel(1)] sel(1) row by blast
  have none: "\<And>p. p \<noteq> ''4wtv'' \<Longrightarrow> \<not> (\<exists>r\<in>set (select_best (retrieve_filters written_frame)).
      pdb r = p \<and> r \<in> set written_frame
      \<and> ligand r = Str ''ATP''
      \<and> card (ligand ` {r' \<in> set written_frame. ligand r' = Str ''ATP'' \<and> pdb r' = pdb r}) = 1
      \<and> allosteric_ligand r = Num 0
      \<and> (\<forall>r'\<in>set written_frame. pdb r' = pdb r \<and> ligand r' = Str ''ATP''
             \<and> allosteric_ligand r' = Num 0 \<longrightarrow> \<not> better r' r)
      \<and> DFG r \<noteq> ''na'' \<and> aC_helix r = ''in'')"
    using row(1) by (simp add: selected_written_frame(1))
  have a: "pdb_file directory ''4wtv'' \<in> set (writes ?st)"
    using inst [of "''4wtv''"] spelled by blast
  have b: "contents ?st (pdb_file directory ''4wtv'') = Some ''MM''"
    using inst [of "''4wtv''"] sel(1) row(1-4) by metis
  have c: "pdb_file directory ''2src'' \<notin> set (writes ?st)"
    using inst [of "''2src''"] none [of "''2src''"] by (simp del: bex_simps)
  have d: "pdb_file directory ''4an3'' \<notin> set (writes ?st)"
    using inst [of "''4an3''"] none [of "''4an3''"] by (simp del: bex_simps)
  from inst [of "''4wtv''"] obtain s where
    run: "notebook example_count example_text example_text written_frame (initial_store Map.empty)
            = Inr s"
    and e: "pdb_file directory ''4wtv'' \<in> set (writes (files s))"
    using plain(1) spelled by blast
  from inst [of "''2src''"] run have f: "pdb_file directory ''2src'' \<notin> set (writes (files s))"
    using plain(2) none [of "''2src''"] by (auto simp del: bex_simps)
  from inst [of "''4an3''"] run have g: "pdb_file directory ''4an3'' \<notin> set (writes (files s))"
    using plain(3) none [of "''4an3''"] by (auto simp del: bex_simps)
  from plain_names_written_frame plain sel row a b c d run e f g show ?thesis
    by blast
qed

lemma distinct_buckets:
  assumes "distinct (map f rs)"
  shows "distinct (map f (filter (\<lambda>r. n r = (0::nat)) rs) @ map f (filter (\<lambda>r. n r = 1) rs)
                   @ map f (filter (\<lambda>r. n r = 2) rs) @ map f (filter (\<lambda>r. 2 < n r) rs))"
  using assms
proof (induction rs)
  case Nil
  show ?case by simp
next
  case (Cons r rs)
  then have fresh: "f r \<notin> f ` set rs" and ih: "distinct (map f (filter (\<lambda>r. n r = 0) rs)
      @ map f (filter (\<lambda>r. n r = 1) rs) @ map f (filter (\<lambda>r. n r = 2) rs)
      @ map f (filter (\<lambda>r. 2 < n r) rs))"
    by simp_all
  from fresh have "\<And>P. f r \<notin> f ` set (filter P rs)"
    by auto
  with ih show ?case
    by (auto simp: image_iff)
qed

lemma set_buckets:
  "set (map f (filter (\<lambda>r. n r = (0::nat)) rs) @ map f (filter (\<lambda>r. n r = 1) rs)
        @ map f (filter (\<lambda>r. n r = 2) rs) @ map f (filter (\<lambda>r. 2 < n r) rs)) = f ` set rs"
proof
  show "set (map f (filter (\<lambda>r. n r = 0) rs) @ map f (filter (\<lambda>r. n r = 1) rs)
        @ map f (filter (\<lambda>r. n r = 2) rs) @ map f (filter (\<lambda>r. 2 < n r) rs)) \<subseteq> f ` set rs"
    by auto
  show "f ` set rs \<subseteq> set (map f (filter (\<lambda>r. n r = 0) rs) @ map f (filter (\<lambda>r. n r = 1) rs)
        @ map f (filter (\<lambda>r. n r = 2) rs) @ map f (filter (\<lambda>r. 2 < n r) rs))"
  proof
    fix y assume "y \<in> f ` set rs"
    then obtain r where r: "r \<in> set rs" "y = f r" by auto
    have "n r = 0 \<or> n r = 1 \<or> n r = 2 \<or> 2 < n r" by arith
    with r show "y \<in> set (map f (filter (\<lambda>r. n r = 0) rs) @ map f (filter (\<lambda>r. n r = 1) rs)
        @ map f (filter (\<lambda>r. n r = 2) rs) @ map f (filter (\<lambda>r. 2 < n r) rs))"
      by (elim disjE) simp_all
  qed
qed

text \<open>
  C3. For PDB identifiers as \<open>pdb\<close> values, the Mg loop returns; every processed
  structure is in the list that belongs to its number of Mg atoms (0, 1, 2, more),
  counted in the text that the first loop stored for it, and the text retrieved for it
  is in the file \<open>{pdb}.pdb\<close> of the directory of that list; the four lists together
  hold every processed \<open>pdb\<close> value once and nothing else.
\<close>

theorem mg_buckets_partition:
  assumes "plain_names df"
  shows "\<exists>s. notebook cnt text1 text2 df (initial_store fs) = Inr s
    \<and> (\<forall>r\<in>set (aC_in (pipeline df)).
          pdb r \<in> set (mg_list (cnt (text1 (structure_ID r))) s)
          \<and> contents (files s) (pdb_file (mg_directory (cnt (text1 (structure_ID r)))) (pdb r))
              = Some (text2 (structure_ID r)))
    \<and> distinct (no_mg s @ one_mg s @ two_mg s @ more_mg s)
    \<and> set (no_mg s @ one_mg s @ two_mg s @ more_mg s) = pdb ` set (aC_in (pipeline df))"
proof -
  let ?rs = "aC_in (pipeline df)"
  let ?n = "\<lambda>r. cnt (text1 (structure_ID r))"
  from notebook_run [OF assms, of cnt text1 text2 fs] obtain s where
    run: "notebook cnt text1 text2 df (initial_store fs) = Inr s"
    and c: "\<forall>r\<in>set ?rs. contents (files s) (mg_path cnt text1 r) = Some (text2 (structure_ID r))"
    and l: "no_mg s = map pdb (filter (\<lambda>r. ?n r = 0) ?rs)"
      "one_mg s = map pdb (filter (\<lambda>r. ?n r = 1) ?rs)"
      "two_mg s = map pdb (filter (\<lambda>r. ?n r = 2) ?rs)"
      "more_mg s = map pdb (filter (\<lambda>r. 2 < ?n r) ?rs)"
    by blast
  have "\<forall>r\<in>set ?rs. pdb r \<in> set (mg_list (?n r) s)
      \<and> contents (files s) (pdb_file (mg_directory (?n r)) (pdb r)) = Some (text2 (structure_ID r))"
  proof
    fix r assume r: "r \<in> set ?rs"
    have "?n r = 0 \<or> ?n r = 1 \<or> ?n r = 2 \<or> 2 < ?n r" by arith
    with r have "pdb r \<in> set (mg_list (?n r) s)"
      by (auto simp: mg_list_def l)
    moreover from c r have "contents (files s) (pdb_file (mg_directory (?n r)) (pdb r))
        = Some (text2 (structure_ID r))"
      by (simp add: mg_path_def)
    ultimately show "pdb r \<in> set (mg_list (?n r) s)
      \<and> contents (files s) (pdb_file (mg_directory (?n r)) (pdb r)) = Some (text2 (structure_ID r))"
      by simp
  qed
  moreover have "distinct (no_mg s @ one_mg s @ two_mg s @ more_mg s)"
    unfolding l by (rule distinct_buckets) (rule processed_distinct)
  moreover have "set (no_mg s @ one_mg s @ two_mg s @ more_mg s) = pdb ` set ?rs"
    unfolding l by (rule set_buckets)
  ultimately show ?thesis using run by blast
qed

theorem mg_buckets_partition_witness:
  "plain_names klifs_frame \<and> row_4wtv_A \<in> set (aC_in (pipeline klifs_frame))
   \<and> (\<exists>s. notebook example_count example_text example_text klifs_frame (initial_store Map.empty) = Inr s
          \<and> ''4wtv'' \<in> set (two_mg s)
          \<and> contents (files s) (pdb_file directory_two_mg ''4wtv'') = Some ''MM''
          \<and> set (no_mg s @ one_mg s @ two_mg s @ more_mg s) = {''1atp'', ''4wtv''})"
proof -
  have r: "row_4wtv_A \<in> set (aC_in (pipeline klifs_frame))"
    by (simp add: processed_klifs_frame)
  have n: "example_count (example_text (structure_ID row_4wtv_A)) = 2"
    "example_text (structure_ID row_4wtv_A) = ''MM''" "pdb row_4wtv_A = ''4wtv''"
    by (simp_all add: example_rows example_text_def example_count_def)
  have p: "pdb ` set (aC_in (pipeline klifs_frame)) = {''1atp'', ''4wtv''}"
    by (simp add: processed_klifs_frame) (simp add: example_rows)
  from mg_buckets_partition [OF plain_names_klifs_frame, of example_count example_text example_text Map.empty]
  obtain s where
    "notebook example_count example_text example_text klifs_frame (initial_store Map.empty) = Inr s"
    and "\<forall>r\<in>set (aC_in (pipeline klifs_frame)).
          pdb r \<in> set (mg_list (example_count (example_text (structure_ID r))) s)
          \<and> contents (files s)
                (pdb_file (mg_directory (example_count (example_text (structure_ID r)))) (pdb r))
              = Some (example_text (structure_ID r))"
    and "set (no_mg s @ one_mg s @ two_mg s @ more_mg s) = pdb ` set (aC_in (pipeline klifs_frame))"
    by blast
  with r n p have "notebook example_count example_text example_text klifs_frame (initial_store Map.empty) = Inr s
      \<and> ''4wtv'' \<in> set (two_mg s)
      \<and> contents (files s) (pdb_file directory_two_mg ''4wtv'') = Some ''MM''
      \<and> set (no_mg s @ one_mg s @ two_mg s @ more_mg s) = {''1atp'', ''4wtv''}"
    by (force simp: mg_list_def mg_directory_def)
  with plain_names_klifs_frame r show ?thesis by blast
qed

text \<open>
  C10. For PDB identifiers as \<open>pdb\<close> values: after the selection the \<open>pdb\<close> values are
  pairwise distinct; the first loop writes the paths \<open>directory/{pdb}.pdb\<close> of the
  processed rows, which are pairwise distinct; the Mg loop returns and writes, after
  those, one path per processed row, in the directory of its list, and these are
  pairwise distinct too.
\<close>

theorem written_paths_distinct:
  assumes "plain_names df"
  shows "distinct (map pdb (select_best (retrieve_filters df)))
    \<and> writes (retrieve_complexes text1 (pipeline df) (initial_store fs))
        = map complex_path (aC_in (pipeline df))
    \<and> distinct (map complex_path (aC_in (pipeline df)))
    \<and> (\<exists>s. notebook cnt text1 text2 df (initial_store fs) = Inr s
          \<and> writes (files s)
              = map complex_path (aC_in (pipeline df)) @ map (mg_path cnt text1) (aC_in (pipeline df))
          \<and> distinct (map (mg_path cnt text1) (aC_in (pipeline df))))"
proof -
  have "distinct (map complex_path (aC_in (pipeline df)))"
    by (rule distinct_complex_paths) (rule processed_distinct)
  moreover have "distinct (map (mg_path cnt text1) (aC_in (pipeline df)))"
    by (rule distinct_mg_paths) (rule processed_distinct)
  moreover from notebook_run [OF assms, of cnt text1 text2 fs] obtain s where
    "notebook cnt text1 text2 df (initial_store fs) = Inr s"
    "writes (files s)
       = map complex_path (aC_in (pipeline df)) @ map (mg_path cnt text1) (aC_in (pipeline df))"
    by blast
  ultimately show ?thesis
    using distinct_pdb_select_best [of "retrieve_filters df"] retrieve_complexes_run(1) [of text1 df fs]
    by blast
qed

theorem written_paths_distinct_witness:
  "plain_names klifs_frame
   \<and> writes (retrieve_complexes example_text (pipeline klifs_frame) (initial_store Map.empty))
       = [''~/data/kinases/atp/1atp.pdb'', ''~/data/kinases/atp/4wtv.pdb'']
   \<and> (\<exists>s. notebook example_count example_text example_text klifs_frame (initial_store Map.empty) = Inr s
          \<and> writes (files s)
              = [''~/data/kinases/atp/1atp.pdb'', ''~/data/kinases/atp/4wtv.pdb'',
                 ''~/data/kinases/atp/one_mg/1atp.pdb'', ''~/data/kinases/atp/two_mg/4wtv.pdb''])"
proof -
  have a: "map complex_path (aC_in (pipeline klifs_frame))
      = [''~/data/kinases/atp/1atp.pdb'', ''~/data/kinases/atp/4wtv.pdb'']"
    by (simp add: processed_klifs_frame complex_path_def pdb_file_def directory_def example_rows)
  have b: "map (mg_path example_count example_text) (aC_in (pipeline klifs_frame))
      = [''~/data/kinases/atp/one_mg/1atp.pdb'', ''~/data/kinases/atp/two_mg/4wtv.pdb'']"
    by (simp add: processed_klifs_frame mg_path_def pdb_file_def mg_directory_def directories
        example_rows example_text_def example_count_def)
  from written_paths_distinct [OF plain_names_klifs_frame, of example_text Map.empty example_count example_text]
    plain_names_klifs_frame
  show ?thesis by (simp add: a b)
qed

section \<open>Properties of the docking loop\<close>

lemma tki_keys:
  "map fst tkis = [''axitinib'', ''bosutinib'', ''dasatinib'', ''imatinib'', ''nilotinib'',
                   ''ponatinib'', ''erlotinib'', ''gefitinib'']"
  by (simp add: tkis_def)

lemma docking_step_run:
  assumes "map_of tkis k = Some [(''smiles'', smi)]"
  shows "docking_step featurize k s =
     Inr \<lparr>bound = Some \<lparr>tki = k, smiles_ligand = SmilesLigand smi k,
                         base_protein = BaseProtein ''ABL1'' (Some 392),
                         kinase_ligand_complex = abl1_complex k smi,
                         system = featurize (abl1_complex k smi)\<rparr>,
          featurize_calls = featurize_calls s @ [abl1_complex k smi]\<rparr>"
  using assms by (simp add: docking_step_def getitem_def abl1_complex_def Let_def)

lemma docking_loop_run:
  assumes "\<forall>(k, smi)\<in>set kss. map_of tkis k = Some [(''smiles'', smi)]"
  shows "\<exists>s'. docking_loop featurize (map fst kss) s = Inr s'
    \<and> featurize_calls s' = featurize_calls s @ map (\<lambda>(k, smi). abl1_complex k smi) kss
    \<and> bound s'
        = (if kss = [] then bound s
           else Some \<lparr>tki = fst (last kss),
                      smiles_ligand = SmilesLigand (snd (last kss)) (fst (last kss)),
                      base_protein = BaseProtein ''ABL1'' (Some 392),
                      kinase_ligand_complex = abl1_complex (fst (last kss)) (snd (last kss)),
                      system = featurize (abl1_complex (fst (last kss)) (snd (last kss)))\<rparr>)"
  using assms
proof (induction kss arbitrary: s)
  case Nil
  show ?case by simp
next
  case (Cons a kss)
  obtain k smi where a: "a = (k, smi)" by (cases a)
  let ?s1 = "\<lparr>bound = Some \<lparr>tki = k, smiles_ligand = SmilesLigand smi k,
                         base_protein = BaseProtein ''ABL1'' (Some 392),
                         kinase_ligand_complex = abl1_complex k smi,
                         system = featurize (abl1_complex k smi)\<rparr>,
          featurize_calls = featurize_calls s @ [abl1_complex k smi]\<rparr>"
  from Cons.prems a have "map_of tkis k = Some [(''smiles'', smi)]" by simp
  then have step: "docking_step featurize k s = Inr ?s1"
    by (rule docking_step_run)
  from Cons.prems have "\<forall>(k, smi)\<in>set kss. map_of tkis k = Some [(''smiles'', smi)]" by simp
  from Cons.IH [OF this, of ?s1] obtain s' where
    run: "docking_loop featurize (map fst kss) ?s1 = Inr s'"
    and calls: "featurize_calls s' = featurize_calls ?s1 @ map (\<lambda>(k, smi). abl1_complex k smi) kss"
    and sys: "bound s'
        = (if kss = [] then bound ?s1
           else Some \<lparr>tki = fst (last kss),
                      smiles_ligand = SmilesLigand (snd (last kss)) (fst (last kss)),
                      base_protein = BaseProtein ''ABL1'' (Some 392),
                      kinase_ligand_complex = abl1_complex (fst (last kss)) (snd (last kss)),
                      system = featurize (abl1_complex (fst (last kss)) (snd (last kss)))\<rparr>)"
    by blast
  have "docking_loop featurize (map fst (a # kss)) s = Inr s'"
    using a step run by simp
  moreover have "featurize_calls s' = featurize_calls s @ map (\<lambda>(k, smi). abl1_complex k smi) (a # kss)"
    using a calls by simp
  moreover have "bound s'
      = Some \<lparr>tki = fst (last (a # kss)),
                smiles_ligand = SmilesLigand (snd (last (a # kss))) (fst (last (a # kss))),
                base_protein = BaseProtein ''ABL1'' (Some 392),
                kinase_ligand_complex = abl1_complex (fst (last (a # kss))) (snd (last (a # kss))),
                system = featurize (abl1_complex (fst (last (a # kss))) (snd (last (a # kss))))\<rparr>"
    using a sys by simp
  ultimately show ?case by simp
qed

lemma tkis_entries:
  "\<forall>(k, smi)\<in>set (zip (map fst tkis) tki_smiles). map_of tkis k = Some [(''smiles'', smi)]"
  by (simp add: tkis_def tki_smiles_def)

lemma dock_tkis_run:
  "dock_tkis featurize =
     Inr \<lparr>bound = Some \<lparr>tki = ''gefitinib'',
                         smiles_ligand = SmilesLigand (last tki_smiles) ''gefitinib'',
                         base_protein = BaseProtein ''ABL1'' (Some 392),
                         kinase_ligand_complex = abl1_complex ''gefitinib'' (last tki_smiles),
                         system = featurize (abl1_complex ''gefitinib'' (last tki_smiles))\<rparr>,
          featurize_calls = map (\<lambda>(k, smi). abl1_complex k smi) (zip (map fst tkis) tki_smiles)\<rparr>"
proof -
  have keys: "map fst (zip (map fst tkis) tki_smiles) = map fst tkis"
    by (simp add: tkis_def tki_smiles_def)
  have last: "fst (last (zip (map fst tkis) tki_smiles)) = ''gefitinib''"
    "snd (last (zip (map fst tkis) tki_smiles)) = last tki_smiles"
    by (simp_all add: tkis_def tki_smiles_def)
  have nonempty: "tkis \<noteq> []" "tki_smiles \<noteq> []"
    by (simp_all add: tkis_def tki_smiles_def)
  from docking_loop_run [OF tkis_entries, of featurize "\<lparr>bound = None, featurize_calls = []\<rparr>"]
  show ?thesis
    unfolding dock_tkis_def keys last using nonempty by auto
qed

lemma featurize_calls_names:
  "map (\<lambda>c. name (ligand_of c)) (map (\<lambda>(k, smi). abl1_complex k smi) (zip (map fst tkis) tki_smiles))
     = map fst tkis"
  by (simp add: tkis_def tki_smiles_def abl1_complex_def ligand_of_def)

text \<open>
  C4, as it is stated: the featurizer is called once per ligand and a pass/fail outcome
  is recorded for each call. The loop assigns every result to the one variable
  \<open>system\<close>: a featurizer that passes every complex and one that fails axitinib leave
  the same state behind.
\<close>

theorem docking_outcome_counterexample:
  "dock_tkis passes_all = dock_tkis fails_axitinib
   \<and> passes_all axitinib_complex \<noteq> fails_axitinib axitinib_complex"
proof -
  have "last tki_smiles = ''COc1cc2ncnc(Nc3ccc(F)c(Cl)c3)c2cc1OCCCN1CCOCC1''"
    by (simp add: tki_smiles_def tkis_def)
  then have "fails_axitinib (abl1_complex ''gefitinib'' (last tki_smiles))"
    by (simp add: fails_axitinib_def ligand_of_def abl1_complex_def)
  then have "dock_tkis passes_all = dock_tkis fails_axitinib"
    by (simp add: dock_tkis_run passes_all_def)
  moreover have "passes_all axitinib_complex \<noteq> fails_axitinib axitinib_complex"
    by (simp add: passes_all_def fails_axitinib_def ligand_of_def axitinib_complex_def
        abl1_complex_def)
  ultimately show ?thesis by simp
qed

text \<open>
  C4, amended: the featurizer is called exactly once per ligand of the dictionary, in
  dictionary order, eight calls in all, each with the complex of ABL1 and that ligand;
  every result is assigned to \<open>system\<close>, which after the loop holds the result of the
  last call only.
\<close>

theorem featurize_once_per_ligand:
  "\<exists>s. dock_tkis featurize = Inr s
    \<and> featurize_calls s = map (\<lambda>(k, smi). abl1_complex k smi) (zip (map fst tkis) tki_smiles)
    \<and> map (\<lambda>c. name (ligand_of c)) (featurize_calls s) = map fst tkis
    \<and> length (featurize_calls s) = 8
    \<and> distinct (featurize_calls s)
    \<and> map_option system (bound s) = Some (featurize (last (featurize_calls s)))"
proof -
  let ?cs = "map (\<lambda>(k, smi). abl1_complex k smi) (zip (map fst tkis) tki_smiles)"
  have names: "map (\<lambda>c. name (ligand_of c)) ?cs = map fst tkis"
    by (rule featurize_calls_names)
  have "distinct (map fst tkis)"
    by (simp add: tki_keys)
  with names have "distinct (map (\<lambda>c. name (ligand_of c)) ?cs)"
    by simp
  then have "distinct ?cs"
    by (simp only: distinct_map)
  moreover have "length ?cs = 8"
    by (simp add: tkis_def tki_smiles_def)
  moreover have "last ?cs = abl1_complex ''gefitinib'' (last tki_smiles)"
    by (simp add: tkis_def tki_smiles_def)
  ultimately show ?thesis
    using names by (simp add: dock_tkis_run)
qed

text \<open>
  C6. The loop returns, and its calls are fixed: the ligands of the eight complexes carry
  the eight SMILES strings of the dictionary, under the names axitinib, bosutinib,
  dasatinib, imatinib, nilotinib, ponatinib, erlotinib and gefitinib, and the protein of
  every complex is ABL1 with KLIFS kinase ID 392.
\<close>

theorem docking_ligands_and_target_fixed:
  "\<exists>s. dock_tkis featurize = Inr s
    \<and> map (\<lambda>c. smiles (ligand_of c)) (featurize_calls s) = tki_smiles
    \<and> map (\<lambda>c. name (ligand_of c)) (featurize_calls s)
        = [''axitinib'', ''bosutinib'', ''dasatinib'', ''imatinib'', ''nilotinib'',
           ''ponatinib'', ''erlotinib'', ''gefitinib'']
    \<and> map protein_of (featurize_calls s) = replicate 8 (BaseProtein ''ABL1'' (Some 392))
    \<and> map components (featurize_calls s)
        = map (\<lambda>c. [protein_of c, ligand_of c]) (featurize_calls s)
    \<and> length tki_smiles = 8"
proof -
  let ?cs = "map (\<lambda>(k, smi). abl1_complex k smi) (zip (map fst tkis) tki_smiles)"
  have "map (\<lambda>c. smiles (ligand_of c)) ?cs = tki_smiles"
    by (simp add: tkis_def tki_smiles_def abl1_complex_def ligand_of_def)
  moreover have "map (\<lambda>c. name (ligand_of c)) ?cs
      = [''axitinib'', ''bosutinib'', ''dasatinib'', ''imatinib'', ''nilotinib'',
         ''ponatinib'', ''erlotinib'', ''gefitinib'']"
    unfolding featurize_calls_names by (rule tki_keys)
  moreover have "map protein_of ?cs = replicate 8 (BaseProtein ''ABL1'' (Some 392))"
    by (simp add: tkis_def tki_smiles_def abl1_complex_def protein_of_def eval_nat_numeral)
  moreover have "map components ?cs = map (\<lambda>c. [protein_of c, ligand_of c]) ?cs"
    by (simp add: tkis_def tki_smiles_def abl1_complex_def protein_of_def ligand_of_def)
  moreover have "length tki_smiles = 8"
    by (simp add: tkis_def tki_smiles_def)
  ultimately show ?thesis
    by (simp add: dock_tkis_run)
qed

end
